theory Spec2Isabelle
  imports Complex_Main "HOL-Library.Word"
begin

section \<open>Audio scheduling (\<open>NESAudio\<close> in \<open>src/index.ts\<close>)\<close>

text \<open>
  JavaScript numbers (times, durations, playback samples) are modelled as \<^typ>\<open>real\<close>;
  an \<open>Int16Array\<close> is a list of 16-bit words read with \<^const>\<open>sint\<close>. The reading of
  \<open>context.currentTime\<close> is an argument of \<open>push\<close>.
\<close>

type_synonym int16 = "16 word"

text \<open>The constructor: \<open>new AudioContext({ sampleRate: 11050 })\<close>, \<open>scheduledTime = 0\<close>.\<close>

definition sampleRate :: real where
  "sampleRate = 11050"

record nes_audio =
  scheduledTime :: real

definition NESAudio_new :: nes_audio where
  "NESAudio_new = \<lparr>scheduledTime = 0\<rparr>"

text \<open>
  \<open>context.createBuffer(1, length, sampleRate)\<close>: the Web Audio API raises
  \<open>NotSupportedError\<close> when the requested length is zero; otherwise the buffer has
  \<open>length\<close> frames and \<open>duration = length / sampleRate\<close>.
\<close>

datatype dom_exception = NotSupportedError

record audio_buffer =
  frames :: nat
  duration :: real

definition createBuffer :: "nat \<Rightarrow> real \<Rightarrow> dom_exception + audio_buffer" where
  "createBuffer n rate =
     (if n = 0 then Inl NotSupportedError
      else Inr \<lparr>frames = n, duration = real n / rate\<rparr>)"

text \<open>
  \<open>bufferData[i] = input[i] / (2 << 15)\<close>: the shift is a 32-bit integer operation, the
  division is exact in the \<open>Float32Array\<close> (a 16-bit integer over a power of two).
\<close>

definition sample_divisor :: int where
  "sample_divisor = sint (push_bit 15 (2 :: 32 word))"

definition to_sample :: "int16 \<Rightarrow> real" where
  "to_sample s = real_of_int (sint s) / real_of_int sample_divisor"

text \<open>
  What one call of \<open>push\<close> does: the new object state, the argument of
  \<open>bufferSrc.start\<close>, the channel data of the buffer, and the second argument of
  \<open>console.warn\<close> when the underrun branch is taken. (\<open>start\<close> is given a time that
  is not negative: \<open>currentTime\<close> never is, and \<open>scheduledTime\<close> starts at \<open>0\<close> and
  does not decrease.)
\<close>

record push_result =
  audio :: nes_audio
  started_at :: real
  samples :: "real list"
  underrun :: "real option"

definition push :: "nes_audio \<Rightarrow> real \<Rightarrow> int16 list \<Rightarrow> dom_exception + push_result" where
  "push a currentTime input =
     (case createBuffer (length input) sampleRate of
        Inl e \<Rightarrow> Inl e
      | Inr buffer \<Rightarrow>
          (let bufferData = map to_sample input in
           if currentTime < scheduledTime a then
             Inr \<lparr>audio = a\<lparr>scheduledTime := scheduledTime a + duration buffer\<rparr>,
                  started_at = scheduledTime a,
                  samples = bufferData,
                  underrun = None\<rparr>
           else
             Inr \<lparr>audio = a\<lparr>scheduledTime := currentTime + duration buffer\<rparr>,
                  started_at = currentTime,
                  samples = bufferData,
                  underrun = Some (scheduledTime a - currentTime)\<rparr>))"

text \<open>
  The \<open>playAudio\<close> callback of \<open>play\<close> and the checkbox handler: the scheduler is
  constructed at the first delivery that arrives while audio is enabled. An exception of
  \<open>push\<close> leaves the object as it was.
\<close>

record presentation =
  audioEnabled :: bool
  nesAudio :: "nes_audio option"

datatype presentation_event =
  CheckboxClick bool
  | PlayAudio real "int16 list"

fun handle :: "presentation \<Rightarrow> presentation_event \<Rightarrow> presentation" where
  "handle p (CheckboxClick b) = p\<lparr>audioEnabled := b\<rparr>"
| "handle p (PlayAudio now bytes) =
     (if \<not> audioEnabled p then p
      else
        (let a = (case nesAudio p of None \<Rightarrow> NESAudio_new | Some a \<Rightarrow> a) in
         case push a now bytes of
           Inl e \<Rightarrow> p\<lparr>nesAudio := Some a\<rparr>
         | Inr r \<Rightarrow> p\<lparr>nesAudio := Some (audio r)\<rparr>))"

fun handle_all :: "presentation \<Rightarrow> presentation_event list \<Rightarrow> presentation" where
  "handle_all p [] = p"
| "handle_all p (e # es) = handle_all (handle p e) es"

text \<open>The value of the playback clock: \<open>0\<close> is what the constructor will set.\<close>

definition playback_clock :: "presentation \<Rightarrow> real" where
  "playback_clock p = (case nesAudio p of None \<Rightarrow> 0 | Some a \<Rightarrow> scheduledTime a)"


text \<open>
  The numbers of the source are IEEE doubles: a sum or a difference is rounded, and
  \<open>buffer.duration\<close> is the rounded quotient of the length by the sample rate. To
  state what does not depend on the rounding, \<open>push\<close> is given once more with that
  arithmetic left open: \<open>num_add\<close> is the \<open>+\<close> of the language, \<open>num_sub\<close> its \<open>-\<close>,
  and \<open>buffer_duration n\<close> is the \<open>duration\<close> of a buffer of \<open>n\<close> frames. The comparison
  \<open><\<close> of two numbers is exact. With the exact operations this is \<open>push\<close>.
\<close>

record arithmetic =
  num_add :: "real \<Rightarrow> real \<Rightarrow> real"
  num_sub :: "real \<Rightarrow> real \<Rightarrow> real"
  buffer_duration :: "nat \<Rightarrow> real"

definition exact_arithmetic :: arithmetic where
  "exact_arithmetic =
     \<lparr>num_add = (\<lambda>x y. x + y), num_sub = (\<lambda>x y. x - y),
      buffer_duration = (\<lambda>n. real n / sampleRate)\<rparr>"

definition createBuffer_in :: "arithmetic \<Rightarrow> nat \<Rightarrow> dom_exception + audio_buffer" where
  "createBuffer_in ar n =
     (if n = 0 then Inl NotSupportedError
      else Inr \<lparr>frames = n, duration = buffer_duration ar n\<rparr>)"

definition push_in ::
  "arithmetic \<Rightarrow> nes_audio \<Rightarrow> real \<Rightarrow> int16 list \<Rightarrow> dom_exception + push_result" where
  "push_in ar a currentTime input =
     (case createBuffer_in ar (length input) of
        Inl e \<Rightarrow> Inl e
      | Inr buffer \<Rightarrow>
          (let bufferData = map to_sample input in
           if currentTime < scheduledTime a then
             Inr \<lparr>audio = a\<lparr>scheduledTime := num_add ar (scheduledTime a) (duration buffer)\<rparr>,
                  started_at = scheduledTime a,
                  samples = bufferData,
                  underrun = None\<rparr>
           else
             Inr \<lparr>audio = a\<lparr>scheduledTime := num_add ar currentTime (duration buffer)\<rparr>,
                  started_at = currentTime,
                  samples = bufferData,
                  underrun = Some (num_sub ar (scheduledTime a) currentTime)\<rparr>))"




definition segment_duration :: "int16 list \<Rightarrow> real" where
  "segment_duration seg = real (length seg) / sampleRate"

fun is_underrun :: "dom_exception + push_result \<Rightarrow> bool" where
  "is_underrun (Inl e) = False"
| "is_underrun (Inr r) = (underrun r \<noteq> None)"

fun start_of :: "dom_exception + push_result \<Rightarrow> real option" where
  "start_of (Inl e) = None"
| "start_of (Inr r) = Some (started_at r)"

section \<open>Startup parameters (\<open>deriveOptions\<close> in \<open>src/index.ts\<close>)\<close>

text \<open>
  \<open>url.searchParams\<close> is the list of name/value pairs of the query string, in order;
  \<open>get\<close> returns the first value with the given name, or \<open>null\<close>.
\<close>

type_synonym search_params = "(string \<times> string) list"

definition searchParams_get :: "search_params \<Rightarrow> string \<Rightarrow> string option" where
  "searchParams_get qs name = map_of qs name"

record options =
  opt :: bool
  headless :: bool
  rom :: string

definition deriveOptions :: "search_params \<Rightarrow> options" where
  "deriveOptions qs =
     (let enableOptRaw = searchParams_get qs ''opt'';
          headlessRaw = searchParams_get qs ''headless'';
          romRaw = searchParams_get qs ''rom''
      in \<lparr>opt = (case enableOptRaw of None \<Rightarrow> True | Some v \<Rightarrow> v = ''true''),
          headless = (case headlessRaw of None \<Rightarrow> False | Some v \<Rightarrow> v = ''true''),
          rom = (case romRaw of None \<Rightarrow> ''Lan_Master.nes'' | Some v \<Rightarrow> v)\<rparr>)"

section \<open>Page bootstrap (the end of \<open>src/index.ts\<close>)\<close>

text \<open>
  The hosting environment as the top-level code reads it: whether \<open>navigator\<close> has
  \<open>serviceWorker\<close>, how the registration promise settles (with \<open>registration.active\<close>
  when it is fulfilled), whether a controller exists, and whether \<open>SharedArrayBuffer\<close>
  is defined. The result is the list of actions taken, in order.
\<close>

datatype registration = Registered bool | RegistrationFailed

record hosting =
  hasServiceWorker :: bool
  registration_result :: registration
  hasController :: bool
  hasSharedArrayBuffer :: bool

datatype boot_action =
  ConsoleLog
  | Reload
  | Play
  | ProgressError string

definition bootstrap :: "hosting \<Rightarrow> boot_action list" where
  "bootstrap h =
     (if hasServiceWorker h then
        (case registration_result h of
           Registered active \<Rightarrow>
             ConsoleLog #
               (if active \<and> \<not> hasController h then [Reload]
                else if hasSharedArrayBuffer h then [Play]
                else [ProgressError
                  ''Your browser does not support SharedArrayBuffer. Please use a modern browser like Chrome or Firefox.''])
         | RegistrationFailed \<Rightarrow> [ConsoleLog])
      else [ProgressError ''No Service Worker support''])"

fun is_progress_error :: "boot_action \<Rightarrow> bool" where
  "is_progress_error (ProgressError m) = True"
| "is_progress_error _ = False"

section \<open>Startup in the worker (\<open>App.init\<close> and the exposed \<open>init\<close> in \<open>src/optcarrot.worker.ts\<close>)\<close>

datatype progress_input =
  Progress real
  | Message string
  | Error string
  | Done

text \<open>
  The calls of \<open>App.init\<close> that can raise (or, for an awaited promise and for the
  emulator's main loop, never come back), in the order of the source:
  \<^item> \<open>NewKeyEventConsumer\<close>: \<open>new KeyEventConsumer(new RingBuffer(keyEventBuffer, Uint8Array))\<close>;
  \<^item> \<open>Fetch\<close>: \<open>await fetch("./optcarrot.wasm")\<close>;
  \<^item> \<open>ArrayBuffer\<close>: \<open>await response.arrayBuffer()\<close>;
  \<^item> \<open>NewRubyVM\<close>: \<open>new RubyVM()\<close> and \<open>vm.addToImports(imports)\<close>;
  \<^item> \<open>Instantiate\<close>: \<open>await WebAssembly.instantiate(buffer, imports)\<close>;
  \<^item> \<open>SetInstance\<close>: \<open>await vm.setInstance(instance)\<close>;
  \<^item> \<open>WasiInitialize\<close>: \<open>this.wasi.setMemory(...)\<close> and \<open>instance.exports._initialize()\<close>;
  \<^item> \<open>VmInitialize\<close>: \<open>vm.initialize()\<close>;
  \<^item> \<open>EvalRequire\<close>: the first \<open>vm.eval\<close>, which loads the emulator;
  \<^item> \<open>EvalNesNew\<close>: the second \<open>vm.eval\<close>, which installs the web drivers and runs
    \<open>Optcarrot::NES.new(args)\<close> (building its script from \<open>options\<close> included);
  \<^item> \<open>EvalNesRun\<close>: \<open>vm.eval(`$nes.run`)\<close>, the emulator's tick loop.

  How each call ends is the environment's choice, given as a function from stages to
  outcomes. The \<open>progress\<close> callback posts a message and does not raise; the
  \<open>console\<close> calls are left out.
\<close>

datatype stage =
  NewKeyEventConsumer
  | Fetch
  | ArrayBuffer
  | NewRubyVM
  | Instantiate
  | SetInstance
  | WasiInitialize
  | VmInitialize
  | EvalRequire
  | EvalNesNew
  | EvalNesRun

datatype outcome = Returns | Raises string | Hangs

datatype step = Emit progress_input | Call stage

definition init_steps :: "step list" where
  "init_steps =
     [Call NewKeyEventConsumer,
      Emit (Message ''Downloading...''),
      Emit (Progress 0),
      Call Fetch,
      Call ArrayBuffer,
      Emit (Progress (2 / 10)),
      Emit (Message ''Instantiating Optcarrot...''),
      Call NewRubyVM,
      Call Instantiate,
      Call SetInstance,
      Emit (Progress (3 / 10)),
      Call WasiInitialize,
      Call VmInitialize,
      Emit (Progress (6 / 10)),
      Call EvalRequire,
      Emit (Progress (8 / 10)),
      Call EvalNesNew,
      Emit (Progress 1),
      Emit Done,
      Call EvalNesRun]"

text \<open>
  Running the body of the \<open>async\<close> function: what was done, in order, and how the
  returned promise settles (\<open>e.message\<close> when it is rejected).
\<close>

datatype action = Emitted progress_input | Called stage

datatype completion = Resolved | Rejected string | Pending

fun exec :: "(stage \<Rightarrow> outcome) \<Rightarrow> step list \<Rightarrow> action list \<times> completion" where
  "exec env [] = ([], Resolved)"
| "exec env (Emit e # ps) = (let (t, c) = exec env ps in (Emitted e # t, c))"
| "exec env (Call s # ps) =
     (case env s of
        Returns \<Rightarrow> (let (t, c) = exec env ps in (Called s # t, c))
      | Raises m \<Rightarrow> ([Called s], Rejected m)
      | Hangs \<Rightarrow> ([Called s], Pending))"

text \<open>
  The exposed \<open>init\<close>: \<open>app.init(...)\<close> is an \<open>async\<close> function, so it never raises
  synchronously and only the \<open>.catch\<close> handler can run.
\<close>

definition expose_init :: "(stage \<Rightarrow> outcome) \<Rightarrow> action list" where
  "expose_init env =
     (case exec env init_steps of
        (t, Rejected m) \<Rightarrow> t @ [Emitted (Error (''Failed to initialize Optcarrot: '' @ m))]
      | (t, _) \<Rightarrow> t)"

fun events :: "action list \<Rightarrow> progress_input list" where
  "events [] = []"
| "events (Emitted e # t) = e # events t"
| "events (Called s # t) = events t"

fun calls :: "action list \<Rightarrow> stage list" where
  "calls [] = []"
| "calls (Emitted e # t) = calls t"
| "calls (Called s # t) = s # calls t"

fun is_error :: "progress_input \<Rightarrow> bool" where
  "is_error (Error m) = True"
| "is_error _ = False"

fun is_terminal :: "progress_input \<Rightarrow> bool" where
  "is_terminal (Error m) = True"
| "is_terminal Done = True"
| "is_terminal _ = False"

text \<open>No element follows an element that satisfies \<open>P\<close>.\<close>

fun nothing_after :: "('a \<Rightarrow> bool) \<Rightarrow> 'a list \<Rightarrow> bool" where
  "nothing_after P [] = True"
| "nothing_after P (e # es) = (if P e then es = [] else nothing_after P es)"

fun raises :: "outcome \<Rightarrow> bool" where
  "raises (Raises m) = True"
| "raises _ = False"

fun progress_values :: "progress_input list \<Rightarrow> real list" where
  "progress_values [] = []"
| "progress_values (Progress v # es) = v # progress_values es"
| "progress_values (e # es) = progress_values es"

text \<open>The steps before \<open>progress({ kind: "done" })\<close>.\<close>

definition startup_steps :: "step list" where
  "startup_steps = take 18 init_steps"

text \<open>The stages called, and the events emitted, before the call of stage \<open>s\<close>.\<close>

definition calls_before :: "stage \<Rightarrow> stage list" where
  "calls_before s = takeWhile (\<lambda>t. t \<noteq> s) [t. Call t \<leftarrow> init_steps]"

definition emitted_before :: "stage \<Rightarrow> progress_input list" where
  "emitted_before s = [e. Emit e \<leftarrow> takeWhile (\<lambda>p. p \<noteq> Call s) init_steps]"

text \<open>
  The shape \<open>downloading, progress(0), progress(increasing...), done\<close>: one message,
  \<open>progress(0)\<close>, progress values strictly increasing up to \<open>1\<close>, then \<open>done\<close> and
  nothing else.
\<close>

fun increasing_then_done :: "real \<Rightarrow> progress_input list \<Rightarrow> bool" where
  "increasing_then_done v [Done] = (v = 1)"
| "increasing_then_done v (Progress w # es) = (v < w \<and> increasing_then_done w es)"
| "increasing_then_done v _ = False"

fun downloading_progress_done :: "progress_input list \<Rightarrow> bool" where
  "downloading_progress_done (Message m # Progress v # es) = (v = 0 \<and> increasing_then_done 0 es)"
| "downloading_progress_done _ = False"

definition all_return :: "stage \<Rightarrow> outcome" where
  "all_return s = Returns"

definition run_raises :: "stage \<Rightarrow> outcome" where
  "run_raises s = (if s = EvalNesRun then Raises ''boom'' else Returns)"

definition fetch_raises :: "stage \<Rightarrow> outcome" where
  "fetch_raises s = (if s = Fetch then Raises ''Failed to fetch'' else Returns)"

section \<open>The key-event channel\<close>

text \<open>
  Modelled from the spec: \<open>key-event-bus.ts\<close> (\<open>KeyEventProducer\<close>,
  \<open>KeyEventConsumer\<close>) and the ring buffer it wraps are not among the sources. The
  channel is a circular buffer of bytes with a read index and a write index, one slot
  always left free, so that storage for capacity \<open>c\<close> has \<open>c + 1\<close> slots;
  \<open>tryPush\<close> rejects (and drops) an item that does not fit, \<open>tryPop\<close> returns nothing
  when fewer bytes are pending than asked for; an event is the record
  \<open>(code: 1 byte, pressed: 1 byte)\<close>.
\<close>

record ring_buffer =
  storage :: "8 word list"
  read_ptr :: nat
  write_ptr :: nat

text \<open>
  Modelled from the spec: the storage of a channel of capacity \<open>c\<close> (fixed at
  construction, never resized) and a new, empty channel over it.
\<close>

definition getStorageForCapacity :: "nat \<Rightarrow> 8 word list" where
  "getStorageForCapacity c = replicate (Suc c) 0"

definition RingBuffer_new :: "8 word list \<Rightarrow> ring_buffer" where
  "RingBuffer_new st = \<lparr>storage = st, read_ptr = 0, write_ptr = 0\<rparr>"

text \<open>
  Modelled from the spec: the number of bytes written and not yet read, and the room
  left for writing.
\<close>

definition available_read :: "ring_buffer \<Rightarrow> nat" where
  "available_read rb =
     (write_ptr rb + length (storage rb) - read_ptr rb) mod length (storage rb)"

definition available_write :: "ring_buffer \<Rightarrow> nat" where
  "available_write rb = length (storage rb) - 1 - available_read rb"

text \<open>
  Modelled from the spec: bytes are written and read in order from an index on, wrapping
  around at the end of the storage.
\<close>

fun write_bytes :: "8 word list \<Rightarrow> nat \<Rightarrow> 8 word list \<Rightarrow> 8 word list" where
  "write_bytes st p [] = st"
| "write_bytes st p (b # bs) = write_bytes (st[p mod length st := b]) (Suc p) bs"

definition read_bytes :: "8 word list \<Rightarrow> nat \<Rightarrow> nat \<Rightarrow> 8 word list" where
  "read_bytes st p n = map (\<lambda>i. st ! ((p + i) mod length st)) [0..<n]"

text \<open>
  Modelled from the spec: \<open>tryPush\<close> is non-blocking, returns \<open>false\<close> and drops the
  item when it does not fit; \<open>tryPop\<close> is non-blocking and returns nothing when no
  item is pending. Neither moves the other side's index.
\<close>

definition tryPush :: "ring_buffer \<Rightarrow> 8 word list \<Rightarrow> bool \<times> ring_buffer" where
  "tryPush rb bytes =
     (if available_write rb < length bytes then (False, rb)
      else (True, rb\<lparr>storage := write_bytes (storage rb) (write_ptr rb) bytes,
                     write_ptr := (write_ptr rb + length bytes) mod length (storage rb)\<rparr>))"

definition tryPop :: "ring_buffer \<Rightarrow> nat \<Rightarrow> 8 word list option \<times> ring_buffer" where
  "tryPop rb n =
     (if available_read rb < n then (None, rb)
      else (Some (read_bytes (storage rb) (read_ptr rb) n),
            rb\<lparr>read_ptr := (read_ptr rb + n) mod length (storage rb)\<rparr>))"

text \<open>
  Modelled from the spec: an input event \<open>{code, pressed}\<close> and its wire format, one
  byte for the code and one for \<open>pressed\<close>.
\<close>

record input_event =
  code :: "8 word"
  pressed :: bool

definition encode :: "input_event \<Rightarrow> 8 word list" where
  "encode ev = [code ev, if pressed ev then 1 else 0]"

fun decode :: "8 word list \<Rightarrow> input_event option" where
  "decode [c, p] = Some \<lparr>code = c, pressed = (p \<noteq> 0)\<rparr>"
| "decode _ = None"

text \<open>
  Modelled from the spec: the producer encodes one event and calls \<open>tryPush\<close>; the
  consumer calls \<open>tryPop\<close> for one event and decodes it.
\<close>

definition KeyEventProducer_push :: "ring_buffer \<Rightarrow> input_event \<Rightarrow> bool \<times> ring_buffer" where
  "KeyEventProducer_push rb ev = tryPush rb (encode ev)"

definition KeyEventConsumer_consume :: "ring_buffer \<Rightarrow> input_event option \<times> ring_buffer" where
  "KeyEventConsumer_consume rb =
     (case tryPop rb 2 of
        (None, rb') \<Rightarrow> (None, rb')
      | (Some bytes, rb') \<Rightarrow> (decode bytes, rb'))"

text \<open>
  \<open>App.fetchKeyEvent\<close> of \<open>src/optcarrot.worker.ts\<close>: the empty string when nothing was
  consumed, else \<open>event.join(",")\<close>, the decimal code, a comma, and \<open>true\<close> or \<open>false\<close>.
\<close>

fun string_of_nat :: "nat \<Rightarrow> string" where
  "string_of_nat n =
     (if n < 10 then [''0123456789'' ! n]
      else string_of_nat (n div 10) @ [''0123456789'' ! (n mod 10)])"

declare string_of_nat.simps [simp del]

definition join_event :: "input_event \<Rightarrow> string" where
  "join_event ev =
     string_of_nat (unat (code ev)) @ '','' @ (if pressed ev then ''true'' else ''false'')"

definition fetchKeyEvent :: "ring_buffer \<Rightarrow> string \<times> ring_buffer" where
  "fetchKeyEvent rb =
     (case KeyEventConsumer_consume rb of
        (None, rb') \<Rightarrow> ([], rb')
      | (Some event, rb') \<Rightarrow> (join_event event, rb'))"

text \<open>The channel of \<open>play\<close>: \<open>RingBuffer.getStorageForCapacity(1024, Uint8Array)\<close>.\<close>

definition keyEventBuffer :: ring_buffer where
  "keyEventBuffer = RingBuffer_new (getStorageForCapacity 1024)"

text \<open>A history of the channel: pushes by the producer, polls by the consumer.\<close>

datatype chan_op = PushEvent input_event | PopEvent

fun run_channel :: "ring_buffer \<Rightarrow> chan_op list \<Rightarrow> input_event option list" where
  "run_channel rb [] = []"
| "run_channel rb (PushEvent ev # ops) = run_channel (snd (KeyEventProducer_push rb ev)) ops"
| "run_channel rb (PopEvent # ops) =
     (let (r, rb') = KeyEventConsumer_consume rb in r # run_channel rb' ops)"

fun fetch_all :: "ring_buffer \<Rightarrow> chan_op list \<Rightarrow> string list" where
  "fetch_all rb [] = []"
| "fetch_all rb (PushEvent ev # ops) = fetch_all (snd (KeyEventProducer_push rb ev)) ops"
| "fetch_all rb (PopEvent # ops) =
     (let (r, rb') = fetchKeyEvent rb in r # fetch_all rb' ops)"

text \<open>
  The FIFO reading of a history: \<open>q\<close> holds the pushed events not yet popped, oldest
  first; a pop returns the oldest one, or nothing when there is none.
\<close>

fun fifo_pops :: "input_event list \<Rightarrow> chan_op list \<Rightarrow> input_event option list" where
  "fifo_pops q [] = []"
| "fifo_pops q (PushEvent ev # ops) = fifo_pops (q @ [ev]) ops"
| "fifo_pops [] (PopEvent # ops) = None # fifo_pops [] ops"
| "fifo_pops (ev # q) (PopEvent # ops) = Some ev # fifo_pops q ops"

text \<open>
  The invariant of the channel and what it holds: both indices are inside the storage,
  and the pending bytes are the ones from the read index up to the write index.
\<close>

definition wf_ring :: "ring_buffer \<Rightarrow> bool" where
  "wf_ring rb \<longleftrightarrow> read_ptr rb < length (storage rb) \<and> write_ptr rb < length (storage rb)"

definition pending :: "ring_buffer \<Rightarrow> 8 word list" where
  "pending rb = read_bytes (storage rb) (read_ptr rb) (available_read rb)"

text \<open>A channel of capacity \<open>c\<close> holds the events \<open>q\<close>, oldest first.\<close>

definition represents :: "nat \<Rightarrow> ring_buffer \<Rightarrow> input_event list \<Rightarrow> bool" where
  "represents c rb q \<longleftrightarrow>
     wf_ring rb \<and> length (storage rb) = Suc c \<and> pending rb = concat (map encode q)"

text \<open>
  Capacity is not exceeded by a history that starts with \<open>n\<close> events pending: every
  push finds room for its two bytes among the \<open>c\<close> bytes of capacity.
\<close>

fun within_capacity :: "nat \<Rightarrow> nat \<Rightarrow> chan_op list \<Rightarrow> bool" where
  "within_capacity c n [] = True"
| "within_capacity c n (PushEvent ev # ops) = (2 * Suc n \<le> c \<and> within_capacity c (Suc n) ops)"
| "within_capacity c n (PopEvent # ops) = within_capacity c (n - 1) ops"

text \<open>Hosting environments and inputs used as examples below.\<close>

definition no_sab_registration_fails :: hosting where
  "no_sab_registration_fails =
     \<lparr>hasServiceWorker = True, registration_result = RegistrationFailed,
      hasController = False, hasSharedArrayBuffer = False\<rparr>"

definition no_sab_controlled :: hosting where
  "no_sab_controlled =
     \<lparr>hasServiceWorker = True, registration_result = Registered True,
      hasController = True, hasSharedArrayBuffer = False\<rparr>"

definition press :: input_event where
  "press = \<lparr>code = 0, pressed = True\<rparr>"

definition release :: input_event where
  "release = \<lparr>code = 0, pressed = False\<rparr>"

definition press_release_scenario :: "chan_op list" where
  "press_release_scenario = [PushEvent press, PushEvent release, PopEvent, PopEvent, PopEvent]"

section \<open>Theorems\<close>

subsection \<open>Audio scheduling\<close>

lemma sample_divisor_eq: "sample_divisor = 65536"
  by (simp add: sample_divisor_def)

lemma push_nonempty:
  "input \<noteq> [] \<Longrightarrow> push a now input =
     Inr (if now < scheduledTime a then
            \<lparr>audio = \<lparr>scheduledTime = scheduledTime a + segment_duration input\<rparr>,
             started_at = scheduledTime a, samples = map to_sample input, underrun = None\<rparr>
          else
            \<lparr>audio = \<lparr>scheduledTime = now + segment_duration input\<rparr>,
             started_at = now, samples = map to_sample input,
             underrun = Some (scheduledTime a - now)\<rparr>)"
  by (simp add: push_def createBuffer_def segment_duration_def)

lemma push_empty: "push a now [] = Inl NotSupportedError"
  by (simp add: push_def createBuffer_def)

lemma segment_duration_nonneg: "0 \<le> segment_duration seg"
  by (simp add: segment_duration_def sampleRate_def)

text \<open>
  Claim C1, as stated, fails: for the segment with no sample \<open>createBuffer\<close> raises, so
  \<open>push\<close> schedules nothing, neither advances nor resets the clock, and signals no
  underrun, although the playback time has passed the clock.
\<close>

theorem push_empty_segment_counterexample:
  "\<not> (1 :: real) < scheduledTime NESAudio_new
   \<and> push NESAudio_new 1 [] = Inl NotSupportedError
   \<and> start_of (push NESAudio_new 1 []) = None
   \<and> \<not> is_underrun (push NESAudio_new 1 [])
   \<and> handle \<lparr>audioEnabled = True, nesAudio = Some NESAudio_new\<rparr> (PlayAudio 1 [])
       = \<lparr>audioEnabled = True, nesAudio = Some NESAudio_new\<rparr>"
  by (simp add: push_def createBuffer_def NESAudio_new_def)

text \<open>
  Claim C1, amended. For every relayed audio segment that holds at least one sample,
  \<open>push\<close> follows a two-branch rule on the current playback time \<open>now\<close> and the
  playback clock: if \<open>now < scheduled\<close> the segment starts exactly at \<open>scheduled\<close>, the
  clock advances by exactly the segment's duration and no underrun is signalled;
  otherwise the segment starts at \<open>now\<close>, the clock is reset to \<open>now + duration\<close> and the
  underrun is signalled.
\<close>

theorem push_two_branch_rule:
  assumes "input \<noteq> []"
  shows "\<exists>r. push a now input = Inr r \<and>
    (if now < scheduledTime a
     then started_at r = scheduledTime a
        \<and> scheduledTime (audio r) = scheduledTime a + segment_duration input
        \<and> underrun r = None
     else started_at r = now
        \<and> scheduledTime (audio r) = now + segment_duration input
        \<and> underrun r = Some (scheduledTime a - now))"
  using assms by (simp add: push_nonempty)

theorem push_two_branch_rule_witness:
  "[0, 1 :: int16] \<noteq> []
   \<and> (\<exists>r. push \<lparr>scheduledTime = 1\<rparr> (1 / 2) [0, 1] = Inr r
          \<and> started_at r = 1
          \<and> scheduledTime (audio r) = 1 + segment_duration [0, 1 :: int16]
          \<and> underrun r = None)
   \<and> (\<exists>r. push \<lparr>scheduledTime = 1\<rparr> 3 [0, 1] = Inr r
          \<and> started_at r = 3
          \<and> scheduledTime (audio r) = 3 + segment_duration [0, 1 :: int16]
          \<and> underrun r = Some (- 2))"
  using push_two_branch_rule [of "[0, 1]" "\<lparr>scheduledTime = 1\<rparr>" "1 / 2"]
    push_two_branch_rule [of "[0, 1]" "\<lparr>scheduledTime = 1\<rparr>" 3]
  by simp

lemma push_in_exact: "push_in exact_arithmetic a now input = push a now input"
  by (simp add: push_in_def push_def createBuffer_in_def createBuffer_def exact_arithmetic_def
      Let_def)






lemma push_clock_mono:
  "push a now input = Inr r \<Longrightarrow> scheduledTime a \<le> scheduledTime (audio r)"
  using segment_duration_nonneg [of input]
  by (cases "input = []") (auto simp: push_empty push_nonempty split: if_splits)

lemma handle_clock_mono: "playback_clock p \<le> playback_clock (handle p e)"
proof (cases e)
  case (CheckboxClick b)
  then show ?thesis by (simp add: playback_clock_def)
next
  case (PlayAudio now bytes)
  show ?thesis
  proof (cases "audioEnabled p")
    case False
    with PlayAudio show ?thesis by simp
  next
    case True
    define a where "a = (case nesAudio p of None \<Rightarrow> NESAudio_new | Some a \<Rightarrow> a)"
    have pa: "playback_clock p = scheduledTime a"
      by (simp add: a_def playback_clock_def NESAudio_new_def split: option.splits)
    show ?thesis
    proof (cases "push a now bytes")
      case (Inl x)
      with True PlayAudio pa show ?thesis
        by (simp add: a_def [symmetric] playback_clock_def)
    next
      case (Inr r)
      with True PlayAudio pa push_clock_mono [OF Inr] show ?thesis
        by (simp add: a_def [symmetric] playback_clock_def)
    qed
  qed
qed

lemma handle_all_clock_mono: "playback_clock p \<le> playback_clock (handle_all p es)"
proof (induction es arbitrary: p)
  case Nil
  show ?case by simp
next
  case (Cons e es)
  have "playback_clock p \<le> playback_clock (handle p e)" by (rule handle_clock_mono)
  also have "\<dots> \<le> playback_clock (handle_all (handle p e) es)" by (rule Cons.IH)
  finally show ?case by simp
qed

lemma handle_all_append: "handle_all p (es @ fs) = handle_all (handle_all p es) fs"
  by (induction es arbitrary: p) simp_all

text \<open>
  Claim C9. The playback clock (the scheduler's \<open>scheduledTime\<close>) is changed only by
  \<open>push\<close>: the checkbox handler leaves the scheduler as it is, and so does a delivery
  that arrives while audio is disabled. Across every sequence of events it never moves
  backwards: neither in one call of \<open>push\<close> (the underrun reset included, where the
  clock becomes \<open>now + duration\<close> with \<open>now\<close> at or past its old value), nor from any
  point of a run to any later point.
\<close>

theorem playback_clock_monotone:
  "nesAudio (handle p (CheckboxClick b)) = nesAudio p
   \<and> (\<not> audioEnabled p \<longrightarrow> nesAudio (handle p (PlayAudio now bytes)) = nesAudio p)
   \<and> (input \<noteq> [] \<longrightarrow>
        (\<exists>r. push a now input = Inr r \<and> scheduledTime a \<le> scheduledTime (audio r)))
   \<and> playback_clock p \<le> playback_clock (handle p e)
   \<and> playback_clock (handle_all p es) \<le> playback_clock (handle_all p (es @ fs))"
proof -
  have "input \<noteq> [] \<longrightarrow>
        (\<exists>r. push a now input = Inr r \<and> scheduledTime a \<le> scheduledTime (audio r))"
  proof
    assume "input \<noteq> []"
    then obtain r where r: "push a now input = Inr r" by (simp add: push_nonempty)
    then have "scheduledTime a \<le> scheduledTime (audio r)" by (rule push_clock_mono)
    with r show "\<exists>r. push a now input = Inr r \<and> scheduledTime a \<le> scheduledTime (audio r)"
      by blast
  qed
  moreover have "playback_clock (handle_all p es) \<le> playback_clock (handle_all p (es @ fs))"
    unfolding handle_all_append by (rule handle_all_clock_mono)
  moreover have "playback_clock p \<le> playback_clock (handle p e)"
    by (rule handle_clock_mono)
  ultimately show ?thesis by simp
qed

theorem playback_clock_monotone_witness:
  "\<not> audioEnabled \<lparr>audioEnabled = False, nesAudio = Some \<lparr>scheduledTime = 4\<rparr>\<rparr>
   \<and> nesAudio (handle \<lparr>audioEnabled = False, nesAudio = Some \<lparr>scheduledTime = 4\<rparr>\<rparr>
                 (PlayAudio 9 [1, 2]))
       = Some \<lparr>scheduledTime = 4\<rparr>
   \<and> [1, 2 :: int16] \<noteq> []
   \<and> (\<exists>r. push \<lparr>scheduledTime = 4\<rparr> 9 [1, 2] = Inr r
          \<and> scheduledTime \<lparr>scheduledTime = 4\<rparr> \<le> scheduledTime (audio r))"
  using playback_clock_monotone
    [of "\<lparr>audioEnabled = False, nesAudio = Some \<lparr>scheduledTime = 4\<rparr>\<rparr>" _ 9 "[1, 2]"
        "[1, 2]" "\<lparr>scheduledTime = 4\<rparr>" "CheckboxClick True" "[]" "[]"]
  by simp

lemma to_sample_eq: "to_sample s = real_of_int (sint s) / 65536"
  by (simp add: to_sample_def sample_divisor_eq)

lemma to_sample_range: "- (1 / 2) \<le> to_sample s \<and> to_sample s < 1 / 2"
proof -
  have "- (2 ^ (LENGTH(16) - 1)) \<le> sint s" "sint s < 2 ^ (LENGTH(16) - 1)"
    by (rule sint_ge, rule sint_lt)
  then have "- 32768 \<le> sint s" "sint s < 32768" by simp_all
  then have "- 32768 \<le> real_of_int (sint s)" "real_of_int (sint s) < 32768" by linarith+
  then show ?thesis by (simp add: to_sample_eq)
qed

text \<open>
  Claim C10. For every relayed audio buffer, each signed 16-bit input sample \<open>s\<close>
  becomes the playback sample \<open>s / 65536\<close> (the divisor \<open>2 << 15\<close> is \<open>65536\<close>, not
  \<open>32768\<close>), so every scheduled sample lies in \<open>[-0.5, 0.5)\<close>.
\<close>

theorem sample_conversion:
  assumes "input \<noteq> []"
  shows "sample_divisor = 65536
    \<and> (\<exists>r. push a now input = Inr r
          \<and> samples r = map (\<lambda>s. real_of_int (sint s) / 65536) input
          \<and> (\<forall>x \<in> set (samples r). - (1 / 2) \<le> x \<and> x < 1 / 2))"
proof -
  obtain r where r: "push a now input = Inr r" "samples r = map to_sample input"
    using assms by (simp add: push_nonempty)
  have "samples r = map (\<lambda>s. real_of_int (sint s) / 65536) input"
    by (simp add: r(2) to_sample_eq)
  moreover have "\<forall>x \<in> set (samples r). - (1 / 2) \<le> x \<and> x < 1 / 2"
    using to_sample_range by (auto simp: r(2))
  ultimately show ?thesis using r(1) sample_divisor_eq by blast
qed

theorem sample_conversion_witness:
  "[32768, 32767, 1 :: int16] \<noteq> []
   \<and> (\<exists>r. push NESAudio_new 0 [32768, 32767, 1] = Inr r
          \<and> samples r = [- (1 / 2), 32767 / 65536, 1 / 65536]
          \<and> list_all (\<lambda>x. - (1 / 2) \<le> x \<and> x < 1 / 2) (samples r))"
  using sample_conversion [of "[32768, 32767, 1]" NESAudio_new 0]
  by (simp add: list_all_iff)

subsection \<open>Startup parameters\<close>

text \<open>
  Claim C8. Each of the three startup parameters is defaulted on its own when it is
  absent from the query string: \<open>opt\<close> is \<open>true\<close> when the parameter \<open>opt\<close> is absent and
  otherwise true iff its value is \<open>"true"\<close>; \<open>headless\<close> is \<open>false\<close> when absent and
  otherwise true iff its value is \<open>"true"\<close>; \<open>rom\<close> is \<open>"Lan_Master.nes"\<close> when absent and
  otherwise the given value. A parameter is absent exactly when no pair of the query
  string has its name, and each field depends on its own parameter only.
\<close>

theorem deriveOptions_defaults:
  "opt (deriveOptions qs) =
     (case searchParams_get qs ''opt'' of None \<Rightarrow> True | Some v \<Rightarrow> v = ''true'')
   \<and> headless (deriveOptions qs) =
     (case searchParams_get qs ''headless'' of None \<Rightarrow> False | Some v \<Rightarrow> v = ''true'')
   \<and> rom (deriveOptions qs) =
     (case searchParams_get qs ''rom'' of None \<Rightarrow> ''Lan_Master.nes'' | Some v \<Rightarrow> v)
   \<and> (searchParams_get qs name = None \<longleftrightarrow> name \<notin> fst ` set qs)
   \<and> (searchParams_get qs ''opt'' = searchParams_get qs' ''opt'' \<longrightarrow>
        opt (deriveOptions qs) = opt (deriveOptions qs'))
   \<and> (searchParams_get qs ''headless'' = searchParams_get qs' ''headless'' \<longrightarrow>
        headless (deriveOptions qs) = headless (deriveOptions qs'))
   \<and> (searchParams_get qs ''rom'' = searchParams_get qs' ''rom'' \<longrightarrow>
        rom (deriveOptions qs) = rom (deriveOptions qs'))"
  by (simp add: deriveOptions_def searchParams_get_def map_of_eq_None_iff)

theorem deriveOptions_defaults_witness:
  "searchParams_get [(''headless'', ''true'')] ''opt'' = searchParams_get [] ''opt''
   \<and> opt (deriveOptions [(''headless'', ''true'')]) = opt (deriveOptions [])
   \<and> searchParams_get [(''opt'', ''false''), (''headless'', ''true'')] ''headless''
       = searchParams_get [(''headless'', ''true'')] ''headless''
   \<and> headless (deriveOptions [(''opt'', ''false''), (''headless'', ''true'')])
       = headless (deriveOptions [(''headless'', ''true'')])
   \<and> searchParams_get [(''opt'', ''false'')] ''rom'' = searchParams_get [] ''rom''
   \<and> rom (deriveOptions [(''opt'', ''false'')]) = ''Lan_Master.nes''
   \<and> deriveOptions [(''opt'', ''false''), (''headless'', ''true''), (''rom'', ''a.nes'')]
       = \<lparr>opt = False, headless = True, rom = ''a.nes''\<rparr>
   \<and> deriveOptions [] = \<lparr>opt = True, headless = False, rom = ''Lan_Master.nes''\<rparr>"
  using deriveOptions_defaults [of "[(''headless'', ''true'')]" "''opt''" "[]"]
    deriveOptions_defaults
      [of "[(''opt'', ''false''), (''headless'', ''true'')]" "''opt''" "[(''headless'', ''true'')]"]
    deriveOptions_defaults [of "[(''opt'', ''false'')]" "''opt''" "[]"]
  by (simp add: deriveOptions_def searchParams_get_def)

subsection \<open>Page bootstrap\<close>

text \<open>
  Claim C6, as stated, fails: when \<open>SharedArrayBuffer\<close> is unavailable and the service
  worker registration is rejected, the page only writes to the console; no user-visible
  error is reported.
\<close>

theorem no_shared_memory_counterexample:
  "\<not> hasSharedArrayBuffer no_sab_registration_fails
   \<and> bootstrap no_sab_registration_fails = [ConsoleLog]
   \<and> filter is_progress_error (bootstrap no_sab_registration_fails) = []"
  by (simp add: bootstrap_def no_sab_registration_fails_def)

text \<open>
  Claim C6, amended. Whenever \<open>SharedArrayBuffer\<close> is unavailable, no session is
  started (\<open>play\<close> is never invoked; there is no degraded fallback mode). A terminal,
  user-visible error is then reported, and it is the last thing done, when the
  environment has no service worker support, or when the registration succeeds and the
  page is not reloaded; when the registration is rejected, or the page reloads because
  the active registration does not control it yet, nothing user-visible is reported in
  that page load.
\<close>

theorem no_shared_memory:
  assumes "\<not> hasSharedArrayBuffer h"
  shows "Play \<notin> set (bootstrap h)
    \<and> bootstrap h =
        (if \<not> hasServiceWorker h then [ProgressError ''No Service Worker support'']
         else case registration_result h of
                RegistrationFailed \<Rightarrow> [ConsoleLog]
              | Registered active \<Rightarrow>
                  if active \<and> \<not> hasController h then [ConsoleLog, Reload]
                  else [ConsoleLog, ProgressError
                    ''Your browser does not support SharedArrayBuffer. Please use a modern browser like Chrome or Firefox.''])"
  using assms by (simp add: bootstrap_def split: registration.splits)

theorem no_shared_memory_witness:
  "\<not> hasSharedArrayBuffer no_sab_controlled
   \<and> Play \<notin> set (bootstrap no_sab_controlled)
   \<and> bootstrap no_sab_controlled =
       [ConsoleLog, ProgressError
         ''Your browser does not support SharedArrayBuffer. Please use a modern browser like Chrome or Firefox.'']"
  using no_shared_memory [of no_sab_controlled]
  by (simp add: no_sab_controlled_def)

subsection \<open>Startup in the worker\<close>

lemma events_append: "events (t @ u) = events t @ events u"
  by (induction t rule: events.induct) simp_all

lemma calls_append: "calls (t @ u) = calls t @ calls u"
  by (induction t rule: calls.induct) simp_all

lemma fst_exec_Emit: "fst (exec env (Emit e # ps)) = Emitted e # fst (exec env ps)"
  by (simp add: split_def Let_def)

lemma snd_exec_Emit: "snd (exec env (Emit e # ps)) = snd (exec env ps)"
  by (simp add: split_def Let_def)

lemma fst_exec_Call:
  "fst (exec env (Call s # ps)) = Called s # (if env s = Returns then fst (exec env ps) else [])"
  by (simp add: split_def Let_def split: outcome.splits)

lemma snd_exec_Call:
  "snd (exec env (Call s # ps)) =
     (case env s of Returns \<Rightarrow> snd (exec env ps) | Raises m \<Rightarrow> Rejected m | Hangs \<Rightarrow> Pending)"
  by (simp add: split_def Let_def split: outcome.splits)

lemmas exec_proj = fst_exec_Emit snd_exec_Emit fst_exec_Call snd_exec_Call

lemma expose_init_alt:
  "expose_init env =
     fst (exec env init_steps) @
       (case snd (exec env init_steps) of
          Rejected m \<Rightarrow> [Emitted (Error (''Failed to initialize Optcarrot: '' @ m))]
        | _ \<Rightarrow> [])"
  by (simp add: expose_init_def split: prod.splits completion.splits)

text \<open>Running one list of steps after another.\<close>

lemma fst_exec_append:
  "fst (exec env (ps @ qs)) =
     fst (exec env ps) @ (if snd (exec env ps) = Resolved then fst (exec env qs) else [])"
proof (induction ps)
  case Nil
  show ?case by simp
next
  case (Cons p ps)
  show ?case
  proof (cases p)
    case (Emit e)
    with Cons show ?thesis by (simp add: exec_proj del: exec.simps(2,3))
  next
    case (Call s)
    with Cons show ?thesis
      by (cases "env s") (simp_all add: exec_proj del: exec.simps(2,3))
  qed
qed

lemma snd_exec_append:
  "snd (exec env (ps @ qs)) =
     (if snd (exec env ps) = Resolved then snd (exec env qs) else snd (exec env ps))"
proof (induction ps)
  case Nil
  show ?case by simp
next
  case (Cons p ps)
  show ?case
  proof (cases p)
    case (Emit e)
    with Cons show ?thesis by (simp add: exec_proj del: exec.simps(2,3))
  next
    case (Call s)
    with Cons show ?thesis
      by (cases "env s") (simp_all add: exec_proj del: exec.simps(2,3))
  qed
qed

text \<open>What a run emits is an initial part of what its steps emit.\<close>

lemma events_exec_prefix:
  "\<exists>r. [e. Emit e \<leftarrow> ps] = events (fst (exec env ps)) @ r"
proof (induction ps)
  case Nil
  show ?case by simp
next
  case (Cons p ps)
  then obtain r where r: "[e. Emit e \<leftarrow> ps] = events (fst (exec env ps)) @ r" by blast
  show ?case
  proof (cases p)
    case (Emit e)
    with r show ?thesis by (simp add: exec_proj del: exec.simps(2,3))
  next
    case (Call s)
    with r show ?thesis
      by (cases "env s") (simp_all add: exec_proj del: exec.simps(2,3))
  qed
qed

lemma nothing_after_append:
  "\<forall>e \<in> set pre. \<not> P e \<Longrightarrow> nothing_after P (pre @ es) = nothing_after P es"
  by (induction pre) simp_all

lemma nothing_after_none: "\<forall>e \<in> set pre. \<not> P e \<Longrightarrow> nothing_after P pre"
  using nothing_after_append [of pre P "[]"] by simp

lemma init_steps_split: "init_steps = startup_steps @ [Emit Done, Call EvalNesRun]"
  by (simp add: startup_steps_def init_steps_def)

lemma startup_emits:
  "[e. Emit e \<leftarrow> startup_steps] =
     [Message ''Downloading...'', Progress 0, Progress (2 / 10),
      Message ''Instantiating Optcarrot...'', Progress (3 / 10), Progress (6 / 10),
      Progress (8 / 10), Progress 1]"
  by (simp add: startup_steps_def init_steps_def)

lemma startup_events_not_terminal:
  assumes "e \<in> set (events (fst (exec env startup_steps)))"
  shows "\<not> is_terminal e"
proof -
  obtain r where "[e. Emit e \<leftarrow> startup_steps] = events (fst (exec env startup_steps)) @ r"
    using events_exec_prefix by blast
  then have "set (events (fst (exec env startup_steps))) \<subseteq> set [e. Emit e \<leftarrow> startup_steps]"
    by (metis set_append Un_upper1)
  with assms have "e \<in> set [e. Emit e \<leftarrow> startup_steps]" by blast
  then show ?thesis unfolding startup_emits by auto
qed

lemma expose_init_events:
  "events (expose_init env) =
     events (fst (exec env startup_steps)) @
       (case snd (exec env startup_steps) of
          Resolved \<Rightarrow>
            Done # (case env EvalNesRun of
                      Raises m \<Rightarrow> [Error (''Failed to initialize Optcarrot: '' @ m)]
                    | _ \<Rightarrow> [])
        | Rejected m \<Rightarrow> [Error (''Failed to initialize Optcarrot: '' @ m)]
        | Pending \<Rightarrow> [])"
  by (cases "snd (exec env startup_steps)"; cases "env EvalNesRun")
     (simp_all add: expose_init_alt init_steps_split fst_exec_append snd_exec_append
        events_append exec_proj del: exec.simps(2,3))

lemma all_return_events:
  "events (expose_init all_return) =
     [Message ''Downloading...'', Progress 0, Progress (2 / 10),
      Message ''Instantiating Optcarrot...'', Progress (3 / 10), Progress (6 / 10),
      Progress (8 / 10), Progress 1, Done]"
  by (simp add: expose_init_alt init_steps_def all_return_def exec_proj del: exec.simps(2,3))

lemma run_raises_events:
  "events (expose_init run_raises) =
     [Message ''Downloading...'', Progress 0, Progress (2 / 10),
      Message ''Instantiating Optcarrot...'', Progress (3 / 10), Progress (6 / 10),
      Progress (8 / 10), Progress 1, Done, Error ''Failed to initialize Optcarrot: boom'']"
  by (simp add: expose_init_alt init_steps_def run_raises_def exec_proj del: exec.simps(2,3))

lemma fetch_raises_trace:
  "expose_init fetch_raises =
     [Called NewKeyEventConsumer, Emitted (Message ''Downloading...''), Emitted (Progress 0),
      Called Fetch, Emitted (Error ''Failed to initialize Optcarrot: Failed to fetch'')]"
  by (simp add: expose_init_alt init_steps_def fetch_raises_def exec_proj del: exec.simps(2,3))

text \<open>A stage raises after every stage before it has returned.\<close>

lemma failure_events:
  assumes "env s = Raises m" and "list_all (\<lambda>t. env t = Returns) (calls_before s)"
  shows "events (expose_init env) =
           emitted_before s @ [Error (''Failed to initialize Optcarrot: '' @ m)]"
    and "s \<noteq> EvalNesRun \<Longrightarrow> EvalNesRun \<notin> set (calls (expose_init env))"
  using assms
  by (cases s;
      simp add: calls_before_def emitted_before_def expose_init_alt init_steps_def exec_proj
        del: exec.simps(2,3))+

lemma emitted_before_no_error: "list_all (\<lambda>e. \<not> is_error e) (emitted_before s)"
  by (cases s) (simp_all add: emitted_before_def init_steps_def)

lemma emitted_before_no_terminal:
  "s \<noteq> EvalNesRun \<Longrightarrow> list_all (\<lambda>e. \<not> is_terminal e) (emitted_before s)"
  by (cases s) (simp_all add: emitted_before_def init_steps_def)

text \<open>
  Claim C3, as stated, fails: when every startup call returns and the emulator's
  \<open>$nes.run\<close> then raises, \<open>done\<close> is followed by an \<open>error\<close>.
\<close>

theorem terminal_event_counterexample:
  "events (expose_init run_raises) =
     [Message ''Downloading...'', Progress 0, Progress (2 / 10),
      Message ''Instantiating Optcarrot...'', Progress (3 / 10), Progress (6 / 10),
      Progress (8 / 10), Progress 1, Done, Error ''Failed to initialize Optcarrot: boom'']
   \<and> \<not> nothing_after is_terminal (events (expose_init run_raises))"
  by (simp add: run_raises_events)

text \<open>
  Claim C3, amended. In every session the stream of ProgressEvents contains at most
  one \<open>error\<close> and at most one \<open>done\<close>, and no event of any kind is delivered after an
  \<open>error\<close>; in every session in which the emulator's run (the call made after \<open>done\<close>)
  does not raise, there is at most one \<open>error\<close> or \<open>done\<close> in all and no event is
  delivered after it.
\<close>

theorem terminal_event_last:
  "nothing_after is_error (events (expose_init env))
   \<and> length (filter is_error (events (expose_init env))) \<le> 1
   \<and> length (filter (\<lambda>e. e = Done) (events (expose_init env))) \<le> 1
   \<and> (\<not> raises (env EvalNesRun) \<longrightarrow>
        nothing_after is_terminal (events (expose_init env))
        \<and> length (filter is_terminal (events (expose_init env))) \<le> 1)"
proof -
  let ?pre = "events (fst (exec env startup_steps))"
  have nt: "\<forall>e \<in> set ?pre. \<not> is_terminal e"
    using startup_events_not_terminal by blast
  have ne: "\<forall>e \<in> set ?pre. \<not> is_error e"
  proof
    fix e assume "e \<in> set ?pre"
    with nt have "\<not> is_terminal e" by blast
    then show "\<not> is_error e" by (cases e) simp_all
  qed
  have ft: "filter is_terminal ?pre = []"
    using nt by (simp add: filter_empty_conv)
  have fe: "filter is_error ?pre = []"
    using ne by (simp add: filter_empty_conv)
  have fd: "filter (\<lambda>e. e = Done) ?pre = []"
    using nt by (auto simp: filter_empty_conv)
  have a: "nothing_after is_error (events (expose_init env))"
    by (cases "snd (exec env startup_steps)"; cases "env EvalNesRun")
       (simp_all add: expose_init_events nothing_after_append [OF ne] nothing_after_none [OF ne])
  have b: "length (filter is_error (events (expose_init env))) \<le> 1"
    by (cases "snd (exec env startup_steps)"; cases "env EvalNesRun")
       (simp_all add: expose_init_events fe)
  have c: "length (filter (\<lambda>e. e = Done) (events (expose_init env))) \<le> 1"
    by (cases "snd (exec env startup_steps)"; cases "env EvalNesRun")
       (simp_all add: expose_init_events fd)
  have d: "\<not> raises (env EvalNesRun) \<longrightarrow> nothing_after is_terminal (events (expose_init env))"
    by (cases "snd (exec env startup_steps)"; cases "env EvalNesRun")
       (simp_all add: expose_init_events nothing_after_append [OF nt] nothing_after_none [OF nt])
  have e: "\<not> raises (env EvalNesRun) \<longrightarrow>
      length (filter is_terminal (events (expose_init env))) \<le> 1"
    by (cases "snd (exec env startup_steps)"; cases "env EvalNesRun")
       (simp_all add: expose_init_events ft)
  from a b c d e show ?thesis by blast
qed

theorem terminal_event_last_witness:
  "\<not> raises (all_return EvalNesRun)
   \<and> nothing_after is_terminal (events (expose_init all_return))
   \<and> length (filter is_terminal (events (expose_init all_return))) \<le> 1"
  using terminal_event_last [of all_return]
  by (simp add: all_return_def)

text \<open>
  Claim C5. For every failure during the startup phase (a call made before \<open>done\<close>
  raises: creating the key-event consumer, fetching or reading the binary, instantiating
  it, initializing WASI or the Ruby VM, loading or constructing the emulator), the
  failure is reported exactly once, by an \<open>error\<close> ProgressEvent that carries the text
  \<open>Failed to initialize Optcarrot: \<close> followed by the message of the exception; it is
  the last event and the only terminal one, and the tick loop (\<open>$nes.run\<close>) is not
  started.
\<close>

theorem startup_failure_reported_once:
  assumes "env s = Raises m" and "s \<noteq> EvalNesRun"
    and "list_all (\<lambda>t. env t = Returns) (calls_before s)"
  shows "events (expose_init env) =
           emitted_before s @ [Error (''Failed to initialize Optcarrot: '' @ m)]
    \<and> list_all (\<lambda>e. \<not> is_terminal e) (emitted_before s)
    \<and> length (filter is_terminal (events (expose_init env))) = 1
    \<and> EvalNesRun \<notin> set (calls (expose_init env))"
proof -
  have ev: "events (expose_init env) =
           emitted_before s @ [Error (''Failed to initialize Optcarrot: '' @ m)]"
    using assms(1,3) by (rule failure_events(1))
  have nt: "list_all (\<lambda>e. \<not> is_terminal e) (emitted_before s)"
    using assms(2) by (rule emitted_before_no_terminal)
  then have "filter is_terminal (emitted_before s) = []"
    by (simp add: filter_empty_conv list_all_iff)
  then have "length (filter is_terminal (events (expose_init env))) = 1"
    by (simp add: ev)
  moreover have "EvalNesRun \<notin> set (calls (expose_init env))"
    using assms(1,3,2) by (rule failure_events(2))
  ultimately show ?thesis using ev nt by blast
qed

theorem startup_failure_reported_once_witness:
  "fetch_raises Fetch = Raises ''Failed to fetch'' \<and> Fetch \<noteq> EvalNesRun
   \<and> list_all (\<lambda>t. fetch_raises t = Returns) (calls_before Fetch)
   \<and> events (expose_init fetch_raises) =
       [Message ''Downloading...'', Progress 0,
        Error ''Failed to initialize Optcarrot: Failed to fetch'']
   \<and> calls (expose_init fetch_raises) = [NewKeyEventConsumer, Fetch]"
  using startup_failure_reported_once [of fetch_raises Fetch "''Failed to fetch''"]
  by (simp add: fetch_raises_trace fetch_raises_def calls_before_def emitted_before_def
      init_steps_def)

text \<open>
  Claim C7, as stated, fails: the events of a successful startup are not of the shape
  \<open>downloading, progress(0), progress(increasing...), done\<close>, because a second message
  (\<open>Instantiating Optcarrot...\<close>) is emitted between \<open>progress(0.2)\<close> and
  \<open>progress(0.3)\<close>.
\<close>

theorem progress_ordering_counterexample:
  "\<not> downloading_progress_done (events (expose_init all_return))
   \<and> events (expose_init all_return) ! 3 = Message ''Instantiating Optcarrot...''"
  by (simp add: all_return_events)

text \<open>
  Claim C7, amended. For every successful startup (every call made before \<open>done\<close>
  returns and the emulator's run does not raise) the sequence of ProgressEvents is exactly
  the message \<open>Downloading...\<close>, \<open>progress(0)\<close>, \<open>progress(0.2)\<close>, the message
  \<open>Instantiating Optcarrot...\<close>, \<open>progress(0.3)\<close>, \<open>progress(0.6)\<close>, \<open>progress(0.8)\<close>,
  \<open>progress(1)\<close>, then a single \<open>done\<close>, with no event after \<open>done\<close>; its progress
  values increase strictly from \<open>0\<close> to \<open>1\<close>. For a failing startup (some call raises
  after the calls before it have returned) the sequence terminates in exactly one
  \<open>error\<close>.
\<close>

theorem progress_ordering:
  "(list_all (\<lambda>t. env t = Returns) (calls_before EvalNesRun) \<and> \<not> raises (env EvalNesRun) \<longrightarrow>
      events (expose_init env) =
        [Message ''Downloading...'', Progress 0, Progress (2 / 10),
         Message ''Instantiating Optcarrot...'', Progress (3 / 10), Progress (6 / 10),
         Progress (8 / 10), Progress 1, Done]
      \<and> progress_values (events (expose_init env)) = [0, 2 / 10, 3 / 10, 6 / 10, 8 / 10, 1]
      \<and> sorted_wrt (<) (progress_values (events (expose_init env))))
   \<and> (env s = Raises m \<and> list_all (\<lambda>t. env t = Returns) (calls_before s) \<longrightarrow>
      events (expose_init env) =
        emitted_before s @ [Error (''Failed to initialize Optcarrot: '' @ m)]
      \<and> length (filter is_error (events (expose_init env))) = 1)"
proof (intro conjI impI)
  assume "list_all (\<lambda>t. env t = Returns) (calls_before EvalNesRun) \<and> \<not> raises (env EvalNesRun)"
  then have ok: "env NewKeyEventConsumer = Returns" "env Fetch = Returns"
      "env ArrayBuffer = Returns" "env NewRubyVM = Returns" "env Instantiate = Returns"
      "env SetInstance = Returns" "env WasiInitialize = Returns" "env VmInitialize = Returns"
      "env EvalRequire = Returns" "env EvalNesNew = Returns" "\<not> raises (env EvalNesRun)"
    by (simp_all add: calls_before_def init_steps_def)
  then show ev: "events (expose_init env) =
        [Message ''Downloading...'', Progress 0, Progress (2 / 10),
         Message ''Instantiating Optcarrot...'', Progress (3 / 10), Progress (6 / 10),
         Progress (8 / 10), Progress 1, Done]"
    by (cases "env EvalNesRun")
       (simp_all add: expose_init_alt init_steps_def exec_proj del: exec.simps(2,3))
  show "progress_values (events (expose_init env)) = [0, 2 / 10, 3 / 10, 6 / 10, 8 / 10, 1]"
    by (simp add: ev)
  then show "sorted_wrt (<) (progress_values (events (expose_init env)))"
    by simp
next
  assume f: "env s = Raises m \<and> list_all (\<lambda>t. env t = Returns) (calls_before s)"
  then show ev: "events (expose_init env) =
        emitted_before s @ [Error (''Failed to initialize Optcarrot: '' @ m)]"
    using failure_events(1) by blast
  have "filter is_error (emitted_before s) = []"
    using emitted_before_no_error [of s] by (simp add: filter_empty_conv list_all_iff)
  then show "length (filter is_error (events (expose_init env))) = 1"
    by (simp add: ev)
qed

theorem progress_ordering_witness:
  "list_all (\<lambda>t. all_return t = Returns) (calls_before EvalNesRun)
   \<and> \<not> raises (all_return EvalNesRun)
   \<and> progress_values (events (expose_init all_return)) = [0, 2 / 10, 3 / 10, 6 / 10, 8 / 10, 1]
   \<and> run_raises EvalNesRun = Raises ''boom''
   \<and> list_all (\<lambda>t. run_raises t = Returns) (calls_before EvalNesRun)
   \<and> length (filter is_error (events (expose_init run_raises))) = 1"
  using progress_ordering [of all_return EvalNesRun "''x''"]
    progress_ordering [of run_raises EvalNesRun "''boom''"]
  by (simp add: all_return_def run_raises_def calls_before_def emitted_before_def init_steps_def)

subsection \<open>The key-event channel\<close>

text \<open>Index arithmetic of the circular buffer.\<close>

lemma mod_neq_nat:
  fixes p i j N :: nat
  assumes "i < j" "j < i + N"
  shows "(p + i) mod N \<noteq> (p + j) mod N"
proof
  assume eq: "(p + i) mod N = (p + j) mod N"
  have le: "p + i \<le> p + j" using assms by simp
  have "N dvd (p + j) - (p + i)"
    using mod_eq_dvd_iff_nat [OF le, of N] eq by simp
  then have "N dvd j - i" by simp
  moreover have "0 < j - i" "j - i < N" using assms by simp_all
  ultimately show False using nat_dvd_not_less by blast
qed

lemma used_roundtrip:
  fixes r u N :: nat
  assumes "r < N" "u < N"
  shows "((r + u) mod N + N - r) mod N = u"
proof (cases "r + u < N")
  case True
  then have "(r + u) mod N + N - r = u + N" using assms by simp
  then show ?thesis using assms by simp
next
  case False
  then have "(r + u) mod N = r + u - N"
    using assms by (simp add: mod_if)
  then have "(r + u) mod N + N - r = u" using False by simp
  then show ?thesis using assms by simp
qed

lemma write_ptr_char:
  fixes r w N :: nat
  assumes "r < N" "w < N"
  shows "(r + (w + N - r) mod N) mod N = w"
proof (cases "r \<le> w")
  case True
  then have e: "w + N - r = (w - r) + N" using assms by arith
  have "((w - r) + N) mod N = w - r" using assms by simp
  then have "(w + N - r) mod N = w - r" unfolding e .
  moreover have "r + (w - r) = w" using True by simp
  ultimately show ?thesis using assms by simp
next
  case False
  then have "w + N - r < N" using assms by arith
  then have "(w + N - r) mod N = w + N - r" by simp
  moreover have "r + (w + N - r) = w + N" using assms by arith
  ultimately have "(r + (w + N - r) mod N) mod N = (w + N) mod N" by simp
  then show ?thesis using assms by simp
qed

text \<open>Writing leaves the other slots alone and stores the bytes in order.\<close>

lemma length_write_bytes [simp]: "length (write_bytes st p bs) = length st"
  by (induction bs arbitrary: st p) simp_all

lemma write_bytes_miss:
  "j < length st \<Longrightarrow> \<forall>i < length bs. (p + i) mod length st \<noteq> j \<Longrightarrow>
   write_bytes st p bs ! j = st ! j"
proof (induction bs arbitrary: st p)
  case Nil
  show ?case by simp
next
  case (Cons b bs)
  let ?st = "st[p mod length st := b]"
  have p0: "p mod length st \<noteq> j" using Cons.prems(2) [rule_format, of 0] by simp
  have "\<forall>i < length bs. (Suc p + i) mod length ?st \<noteq> j"
  proof (intro allI impI)
    fix i assume "i < length bs"
    then have "(p + Suc i) mod length st \<noteq> j"
      using Cons.prems(2) [rule_format, of "Suc i"] by simp
    then show "(Suc p + i) mod length ?st \<noteq> j" by simp
  qed
  then have "write_bytes ?st (Suc p) bs ! j = ?st ! j"
    using Cons.IH [of ?st "Suc p"] Cons.prems(1) by simp
  with p0 show ?case by simp
qed

lemma write_bytes_hit:
  "i < length bs \<Longrightarrow> length bs \<le> length st \<Longrightarrow>
   write_bytes st p bs ! ((p + i) mod length st) = bs ! i"
proof (induction bs arbitrary: st p i)
  case Nil
  then show ?case by simp
next
  case (Cons b bs)
  let ?N = "length st"
  let ?st = "st[p mod ?N := b]"
  have N: "0 < ?N" using Cons.prems by auto
  show ?case
  proof (cases i)
    case 0
    have "\<forall>k < length bs. (Suc p + k) mod length ?st \<noteq> p mod ?N"
    proof (intro allI impI)
      fix k assume k: "k < length bs"
      have "(p + 0) mod ?N \<noteq> (p + Suc k) mod ?N"
        by (rule mod_neq_nat) (use k Cons.prems in simp_all)
      then show "(Suc p + k) mod length ?st \<noteq> p mod ?N" by simp
    qed
    then have "write_bytes ?st (Suc p) bs ! (p mod ?N) = ?st ! (p mod ?N)"
      using write_bytes_miss [of "p mod ?N" ?st bs "Suc p"] N by simp
    with 0 N show ?thesis by simp
  next
    case (Suc i')
    have "write_bytes ?st (Suc p) bs ! ((Suc p + i') mod length ?st) = bs ! i'"
      using Cons.IH [of i' ?st "Suc p"] Cons.prems Suc by simp
    with Suc show ?thesis by simp
  qed
qed

lemma ptr_shift:
  fixes w r u k N :: nat
  assumes w: "w = (r + u) mod N"
  shows "(w + k) mod N = (r + (u + k)) mod N"
proof -
  have "(w + k) mod N = ((r + u) mod N + k) mod N" by (simp only: w)
  also have "\<dots> = (r + u + k) mod N" by (rule mod_add_left_eq)
  finally show ?thesis by (simp only: add.assoc)
qed

lemma length_read_bytes [simp]: "length (read_bytes st p n) = n"
  by (simp add: read_bytes_def)

lemma length_pending [simp]: "length (pending rb) = available_read rb"
  by (simp add: pending_def)

lemma available_read_less: "wf_ring rb \<Longrightarrow> available_read rb < length (storage rb)"
proof -
  assume "wf_ring rb"
  then have "0 < length (storage rb)" by (auto simp: wf_ring_def)
  then show ?thesis unfolding available_read_def by (rule mod_less_divisor)
qed

lemma write_ptr_eq:
  assumes "wf_ring rb"
  shows "write_ptr rb = (read_ptr rb + available_read rb) mod length (storage rb)"
proof -
  have "read_ptr rb < length (storage rb)" "write_ptr rb < length (storage rb)"
    using assms by (simp_all add: wf_ring_def)
  then show ?thesis
    unfolding available_read_def by (rule write_ptr_char [symmetric])
qed

lemma read_bytes_add:
  "read_bytes st p (n + k) = read_bytes st p n @ read_bytes st (p + n) k"
proof -
  have "[0..<n + k] = [0..<n] @ [n..<n + k]"
    by (rule upt_add_eq_append) simp
  also have "[n..<n + k] = map (\<lambda>i. i + n) [0..<k]"
    by (simp only: map_add_upt add.commute [of k n])
  finally have s: "[0..<n + k] = [0..<n] @ map (\<lambda>i. i + n) [0..<k]" .
  have e: "\<And>i. p + (i + n) = p + n + i" by arith
  show ?thesis
    unfolding read_bytes_def s map_append map_map comp_def e ..
qed

lemma read_bytes_mod: "read_bytes st (p mod length st) n = read_bytes st p n"
  by (simp add: read_bytes_def mod_add_left_eq)

lemma read_bytes_write_old:
  assumes "r < length st" "u + length bs < length st" "w = (r + u) mod length st"
  shows "read_bytes (write_bytes st w bs) r u = read_bytes st r u"
  unfolding read_bytes_def
proof (rule map_cong [OF refl])
  let ?N = "length st"
  fix i assume "i \<in> set [0..<u]"
  then have i: "i < u" by simp
  have "\<forall>j < length bs. (w + j) mod ?N \<noteq> (r + i) mod ?N"
  proof (intro allI impI)
    fix j assume j: "j < length bs"
    have a: "i < u + j" using i by simp
    have b: "u + j < i + ?N" using j assms(2) by simp
    have "(r + i) mod ?N \<noteq> (r + (u + j)) mod ?N"
      using a b by (rule mod_neq_nat)
    moreover have "(w + j) mod ?N = (r + (u + j)) mod ?N"
      using assms(3) by (rule ptr_shift)
    ultimately show "(w + j) mod ?N \<noteq> (r + i) mod ?N" by simp
  qed
  moreover have "0 < ?N" using assms(1) by arith
  then have "(r + i) mod ?N < ?N" by (rule mod_less_divisor)
  ultimately have "write_bytes st w bs ! ((r + i) mod ?N) = st ! ((r + i) mod ?N)"
    using write_bytes_miss [of "(r + i) mod ?N" st bs w] by blast
  then show "write_bytes st w bs ! ((r + i) mod length (write_bytes st w bs))
           = st ! ((r + i) mod ?N)"
    by (simp only: length_write_bytes)
qed

lemma read_bytes_write_new:
  assumes "u + length bs < length st" "w = (r + u) mod length st"
  shows "read_bytes (write_bytes st w bs) (r + u) (length bs) = bs"
proof (rule nth_equalityI)
  show "length (read_bytes (write_bytes st w bs) (r + u) (length bs)) = length bs" by simp
next
  let ?N = "length st"
  fix j assume "j < length (read_bytes (write_bytes st w bs) (r + u) (length bs))"
  then have j: "j < length bs" by simp
  have le: "length bs \<le> ?N" using assms(1) by simp
  have "(w + j) mod ?N = (r + (u + j)) mod ?N"
    using assms(2) by (rule ptr_shift)
  then have e: "(r + u + j) mod ?N = (w + j) mod ?N" by (simp only: add.assoc)
  have h: "write_bytes st w bs ! ((w + j) mod ?N) = bs ! j"
    using j le by (rule write_bytes_hit)
  have "read_bytes (write_bytes st w bs) (r + u) (length bs) ! j
      = write_bytes st w bs ! ((r + u + j) mod ?N)"
    using j by (simp add: read_bytes_def)
  also have "\<dots> = bs ! j" by (simp only: e h)
  finally show "read_bytes (write_bytes st w bs) (r + u) (length bs) ! j = bs ! j" .
qed

lemma tryPush_accept:
  assumes wf: "wf_ring rb" and fits: "length bs \<le> available_write rb"
  shows "fst (tryPush rb bs) = True"
    and "wf_ring (snd (tryPush rb bs))"
    and "length (storage (snd (tryPush rb bs))) = length (storage rb)"
    and "pending (snd (tryPush rb bs)) = pending rb @ bs"
proof -
  let ?st = "storage rb" and ?r = "read_ptr rb" and ?w = "write_ptr rb"
  let ?N = "length ?st" and ?u = "available_read rb" and ?k = "length bs"
  let ?st' = "write_bytes ?st ?w bs"
  let ?rb = "rb\<lparr>storage := ?st', write_ptr := (?w + ?k) mod ?N\<rparr>"
  have r: "?r < ?N" and N: "0 < ?N" using wf by (auto simp: wf_ring_def)
  have u: "?u < ?N" using wf by (rule available_read_less)
  have uk: "?u + ?k < ?N" using fits u unfolding available_write_def by arith
  have w: "?w = (?r + ?u) mod ?N" using wf by (rule write_ptr_eq)
  have "\<not> available_write rb < length bs" using fits by simp
  then have push: "tryPush rb bs = (True, ?rb)"
    unfolding tryPush_def by (rule if_not_P)
  show "fst (tryPush rb bs) = True" by (simp only: push fst_conv)
  have sel: "storage ?rb = ?st'" "read_ptr ?rb = ?r" "write_ptr ?rb = (?w + ?k) mod ?N"
    by simp_all
  have len: "length (storage ?rb) = ?N" by (simp only: sel length_write_bytes)
  have "(?w + ?k) mod ?N < ?N" using N by (rule mod_less_divisor)
  then have "wf_ring ?rb" using r by (simp only: wf_ring_def sel length_write_bytes simp_thms)
  then show "wf_ring (snd (tryPush rb bs))" by (simp only: push snd_conv)
  show "length (storage (snd (tryPush rb bs))) = length (storage rb)"
    by (simp only: push snd_conv len)
  have w': "(?w + ?k) mod ?N = (?r + (?u + ?k)) mod ?N"
    using w by (rule ptr_shift)
  have "available_read ?rb
      = (write_ptr ?rb + length (storage ?rb) - read_ptr ?rb) mod length (storage ?rb)"
    by (rule available_read_def)
  also have "\<dots> = ((?w + ?k) mod ?N + ?N - ?r) mod ?N"
    by (simp only: sel length_write_bytes)
  also have "\<dots> = ((?r + (?u + ?k)) mod ?N + ?N - ?r) mod ?N"
    by (simp only: w')
  also have "\<dots> = ?u + ?k" using r uk by (rule used_roundtrip)
  finally have u': "available_read ?rb = ?u + ?k" .
  have "pending ?rb = read_bytes (storage ?rb) (read_ptr ?rb) (available_read ?rb)"
    by (rule pending_def)
  also have "\<dots> = read_bytes ?st' ?r (?u + ?k)"
    by (simp only: sel u')
  also have "\<dots> = read_bytes ?st' ?r ?u @ read_bytes ?st' (?r + ?u) ?k"
    by (rule read_bytes_add)
  also have "read_bytes ?st' ?r ?u = read_bytes ?st ?r ?u"
    using r uk w by (rule read_bytes_write_old)
  also have "read_bytes ?st' (?r + ?u) ?k = bs"
    using uk w by (rule read_bytes_write_new)
  finally have "pending ?rb = read_bytes ?st ?r ?u @ bs" .
  then have "pending ?rb = pending rb @ bs" by (simp only: pending_def [of rb])
  then show "pending (snd (tryPush rb bs)) = pending rb @ bs"
    by (simp only: push snd_conv)
qed

lemma tryPush_reject:
  "available_write rb < length bs \<Longrightarrow> tryPush rb bs = (False, rb)"
  unfolding tryPush_def by (rule if_P)

lemma tryPop_some:
  assumes wf: "wf_ring rb" and has: "n \<le> available_read rb"
  shows "fst (tryPop rb n) = Some (take n (pending rb))"
    and "wf_ring (snd (tryPop rb n))"
    and "length (storage (snd (tryPop rb n))) = length (storage rb)"
    and "pending (snd (tryPop rb n)) = drop n (pending rb)"
proof -
  let ?st = "storage rb" and ?r = "read_ptr rb" and ?w = "write_ptr rb"
  let ?N = "length ?st" and ?u = "available_read rb"
  let ?rb = "rb\<lparr>read_ptr := (?r + n) mod ?N\<rparr>"
  have r: "?r < ?N" and N: "0 < ?N" and wN: "?w < ?N" using wf by (auto simp: wf_ring_def)
  have u: "?u < ?N" using wf by (rule available_read_less)
  have w: "?w = (?r + ?u) mod ?N" using wf by (rule write_ptr_eq)
  have "\<not> available_read rb < n" using has by simp
  then have pop: "tryPop rb n = (Some (read_bytes ?st ?r n), ?rb)"
    unfolding tryPop_def by (rule if_not_P)
  have sel: "storage ?rb = ?st" "read_ptr ?rb = (?r + n) mod ?N" "write_ptr ?rb = ?w"
    by simp_all
  have un: "n + (?u - n) = ?u" using has by simp
  have "pending rb = read_bytes ?st ?r ?u" by (rule pending_def)
  also have "\<dots> = read_bytes ?st ?r (n + (?u - n))" by (simp only: un)
  also have "\<dots> = read_bytes ?st ?r n @ read_bytes ?st (?r + n) (?u - n)"
    by (rule read_bytes_add)
  finally have split: "pending rb = read_bytes ?st ?r n @ read_bytes ?st (?r + n) (?u - n)" .
  have tk: "take n (read_bytes ?st ?r n @ read_bytes ?st (?r + n) (?u - n)) = read_bytes ?st ?r n"
    by simp
  have dr: "drop n (read_bytes ?st ?r n @ read_bytes ?st (?r + n) (?u - n))
          = read_bytes ?st (?r + n) (?u - n)"
    by simp
  show "fst (tryPop rb n) = Some (take n (pending rb))"
    by (simp only: pop fst_conv split tk)
  have r': "(?r + n) mod ?N < ?N" using N by (rule mod_less_divisor)
  then have "wf_ring ?rb" using wN by (simp only: wf_ring_def sel simp_thms)
  then show "wf_ring (snd (tryPop rb n))" by (simp only: pop snd_conv)
  show "length (storage (snd (tryPop rb n))) = length (storage rb)"
    by (simp only: pop snd_conv sel)
  have un': "?u - n < ?N" using u by arith
  have "((?r + n) mod ?N + (?u - n)) mod ?N = (?r + n + (?u - n)) mod ?N"
    by (rule mod_add_left_eq)
  also have "?r + n + (?u - n) = ?r + ?u" using has by arith
  finally have c: "((?r + n) mod ?N + (?u - n)) mod ?N = (?r + ?u) mod ?N" .
  have w2: "?w = ((?r + n) mod ?N + (?u - n)) mod ?N"
    unfolding c by (rule w)
  have "available_read ?rb
      = (write_ptr ?rb + length (storage ?rb) - read_ptr ?rb) mod length (storage ?rb)"
    by (rule available_read_def)
  also have "\<dots> = (?w + ?N - (?r + n) mod ?N) mod ?N"
    by (simp only: sel)
  also have "\<dots> = (((?r + n) mod ?N + (?u - n)) mod ?N + ?N - (?r + n) mod ?N) mod ?N"
    by (simp only: w2 [symmetric])
  also have "\<dots> = ?u - n" using r' un' by (rule used_roundtrip)
  finally have u': "available_read ?rb = ?u - n" .
  have "pending ?rb = read_bytes (storage ?rb) (read_ptr ?rb) (available_read ?rb)"
    by (rule pending_def)
  also have "\<dots> = read_bytes ?st ((?r + n) mod ?N) (?u - n)"
    by (simp only: sel u')
  also have "\<dots> = read_bytes ?st (?r + n) (?u - n)" by (rule read_bytes_mod)
  finally have "pending ?rb = drop n (pending rb)" by (simp only: split dr)
  then show "pending (snd (tryPop rb n)) = drop n (pending rb)"
    by (simp only: pop snd_conv)
qed

lemma tryPop_none: "available_read rb < n \<Longrightarrow> tryPop rb n = (None, rb)"
  unfolding tryPop_def by (rule if_P)

text \<open>Events in the channel.\<close>

lemma length_encoded: "length (concat (map encode q)) = 2 * length q"
  by (induction q) (simp_all add: encode_def)

lemma decode_encode: "decode (encode ev) = Some ev"
  by (simp add: encode_def)

lemma represents_available:
  assumes "represents c rb q"
  shows "available_read rb = 2 * length q" and "available_write rb = c - 2 * length q"
proof -
  have "length (pending rb) = 2 * length q"
    using assms by (simp only: represents_def length_encoded)
  then show r: "available_read rb = 2 * length q" by (simp only: length_pending)
  have "length (storage rb) = Suc c" using assms by (simp only: represents_def)
  then show "available_write rb = c - 2 * length q"
    unfolding available_write_def r by simp
qed

lemma represents_new: "represents c (RingBuffer_new (getStorageForCapacity c)) []"
  by (simp add: represents_def wf_ring_def pending_def RingBuffer_new_def
      getStorageForCapacity_def available_read_def read_bytes_def)

lemma push_accepted:
  assumes rep: "represents c rb q" and room: "2 * Suc (length q) \<le> c"
  shows "represents c (snd (KeyEventProducer_push rb ev)) (q @ [ev])"
proof -
  have wf: "wf_ring rb" using rep by (simp only: represents_def)
  have "length (encode ev) = 2" by (simp add: encode_def)
  then have fits: "length (encode ev) \<le> available_write rb"
    using room by (simp add: represents_available(2) [OF rep])
  note p = tryPush_accept [OF wf fits]
  have "pending (snd (tryPush rb (encode ev))) = concat (map encode (q @ [ev]))"
    using rep by (simp add: p(4) represents_def)
  moreover have "length (storage (snd (tryPush rb (encode ev)))) = Suc c"
    using rep by (simp add: p(3) represents_def)
  ultimately show ?thesis
    using p(2) by (simp add: represents_def KeyEventProducer_push_def)
qed

lemma push_rejected:
  assumes rep: "represents c rb q" and full: "\<not> 2 * Suc (length q) \<le> c"
  shows "KeyEventProducer_push rb ev = (False, rb)"
proof -
  have "length (encode ev) = 2" by (simp add: encode_def)
  then have "available_write rb < length (encode ev)"
    using full by (simp add: represents_available(2) [OF rep])
  then show ?thesis
    unfolding KeyEventProducer_push_def by (rule tryPush_reject)
qed

lemma consume_empty:
  assumes rep: "represents c rb []"
  shows "KeyEventConsumer_consume rb = (None, rb)"
proof -
  have "available_read rb < 2" by (simp add: represents_available(1) [OF rep])
  then have "tryPop rb 2 = (None, rb)" by (rule tryPop_none)
  then show ?thesis by (simp add: KeyEventConsumer_consume_def)
qed

lemma consume_oldest:
  assumes rep: "represents c rb (ev # q)"
  shows "fst (KeyEventConsumer_consume rb) = Some ev"
    and "represents c (snd (KeyEventConsumer_consume rb)) q"
proof -
  have wf: "wf_ring rb" using rep by (simp only: represents_def)
  have has: "2 \<le> available_read rb" by (simp add: represents_available(1) [OF rep])
  note p = tryPop_some [OF wf has]
  have pend: "pending rb = encode ev @ concat (map encode q)"
    using rep by (simp add: represents_def)
  have len: "length (encode ev) = 2" by (simp add: encode_def)
  have t: "take 2 (pending rb) = encode ev" and d: "drop 2 (pending rb) = concat (map encode q)"
    using len by (simp_all add: pend)
  obtain r rb' where pop: "tryPop rb 2 = (r, rb')" by (cases "tryPop rb 2")
  have r: "r = Some (encode ev)" using p(1) by (simp add: pop t)
  have c: "KeyEventConsumer_consume rb = (Some ev, rb')"
    by (simp add: KeyEventConsumer_consume_def pop r decode_encode)
  show "fst (KeyEventConsumer_consume rb) = Some ev" by (simp add: c)
  have "wf_ring rb'" using p(2) by (simp add: pop)
  moreover have "length (storage rb') = Suc c" using p(3) rep by (simp add: pop represents_def)
  moreover have "pending rb' = concat (map encode q)" using p(4) by (simp add: pop d)
  ultimately show "represents c (snd (KeyEventConsumer_consume rb)) q"
    by (simp add: c represents_def)
qed

lemma run_channel_fifo:
  "represents c rb q \<Longrightarrow> within_capacity c (length q) ops \<Longrightarrow>
   run_channel rb ops = fifo_pops q ops"
proof (induction ops arbitrary: rb q)
  case Nil
  show ?case by simp
next
  case (Cons op ops)
  show ?case
  proof (cases op)
    case (PushEvent ev)
    with Cons.prems have room: "2 * Suc (length q) \<le> c"
      and rest: "within_capacity c (length (q @ [ev])) ops" by simp_all
    have "represents c (snd (KeyEventProducer_push rb ev)) (q @ [ev])"
      using Cons.prems(1) room by (rule push_accepted)
    then have "run_channel (snd (KeyEventProducer_push rb ev)) ops = fifo_pops (q @ [ev]) ops"
      using rest by (rule Cons.IH)
    with PushEvent show ?thesis by simp
  next
    case PopEvent
    show ?thesis
    proof (cases q)
      case Nil
      with Cons.prems PopEvent have rest: "within_capacity c (length ([] :: input_event list)) ops"
        by simp
      have rep: "represents c rb []" using Cons.prems(1) Nil by simp
      have "run_channel rb ops = fifo_pops [] ops"
        using rep rest by (rule Cons.IH)
      with PopEvent Nil consume_empty [OF rep] show ?thesis by simp
    next
      case (Cons ev q')
      with Cons.prems PopEvent have rest: "within_capacity c (length q') ops" by simp
      have rep: "represents c rb (ev # q')" using Cons.prems(1) Cons by simp
      note c = consume_oldest [OF rep]
      have "run_channel (snd (KeyEventConsumer_consume rb)) ops = fifo_pops q' ops"
        using c(2) rest by (rule Cons.IH)
      with PopEvent Cons c(1) show ?thesis by (simp add: split_def)
    qed
  qed
qed

lemma fetch_all_run_channel:
  "fetch_all rb ops =
     map (\<lambda>r. case r of None \<Rightarrow> [] | Some ev \<Rightarrow> join_event ev) (run_channel rb ops)"
proof (induction ops arbitrary: rb)
  case Nil
  show ?case by simp
next
  case (Cons op ops)
  show ?case
  proof (cases op)
    case (PushEvent ev)
    with Cons show ?thesis by simp
  next
    case PopEvent
    obtain r rb' where c: "KeyEventConsumer_consume rb = (r, rb')"
      by (cases "KeyEventConsumer_consume rb")
    with PopEvent Cons [of rb'] show ?thesis
      by (cases r) (simp_all add: fetchKeyEvent_def)
  qed
qed

lemma join_press: "join_event press = ''0,true''"
  by (simp add: join_event_def press_def string_of_nat.simps)

lemma join_release: "join_event release = ''0,false''"
  by (simp add: join_event_def release_def string_of_nat.simps)

lemma scenario_within_capacity: "within_capacity 1024 0 press_release_scenario"
  by (simp add: press_release_scenario_def)

lemma scenario_fifo: "fifo_pops [] press_release_scenario = [Some press, Some release, None]"
  by (simp add: press_release_scenario_def)

text \<open>
  Claim C4. The event channel is FIFO and lossless up to capacity: for every history
  of pushes interleaved with pops on a new channel in which capacity is not exceeded,
  the pops return exactly the pushed events not yet popped, in the order of the pushes
  (and nothing when there is none). In particular, on the channel of \<open>play\<close>, pushing
  \<open>{code: 0, pressed: true}\<close> and then \<open>{code: 0, pressed: false}\<close> before any pop makes
  \<open>fetchKeyEvent\<close> return the press, then the release, then the empty string.
\<close>

theorem channel_fifo:
  "(within_capacity c 0 ops \<longrightarrow>
      run_channel (RingBuffer_new (getStorageForCapacity c)) ops = fifo_pops [] ops)
   \<and> run_channel keyEventBuffer press_release_scenario = [Some press, Some release, None]
   \<and> fetch_all keyEventBuffer press_release_scenario = [''0,true'', ''0,false'', '''']"
proof (intro conjI impI)
  assume "within_capacity c 0 ops"
  then show "run_channel (RingBuffer_new (getStorageForCapacity c)) ops = fifo_pops [] ops"
    using run_channel_fifo [OF represents_new, of c ops] by simp
next
  have "run_channel keyEventBuffer press_release_scenario = fifo_pops [] press_release_scenario"
    unfolding keyEventBuffer_def
    using run_channel_fifo [OF represents_new, of 1024 press_release_scenario]
      scenario_within_capacity by simp
  then show r: "run_channel keyEventBuffer press_release_scenario
      = [Some press, Some release, None]"
    by (simp only: scenario_fifo)
  show "fetch_all keyEventBuffer press_release_scenario = [''0,true'', ''0,false'', '''']"
    by (simp add: fetch_all_run_channel r join_press join_release)
qed

theorem channel_fifo_witness:
  "within_capacity 4 0 [PushEvent release, PopEvent, PushEvent press, PushEvent release,
      PopEvent, PopEvent, PopEvent]
   \<and> run_channel (RingBuffer_new (getStorageForCapacity 4))
       [PushEvent release, PopEvent, PushEvent press, PushEvent release,
        PopEvent, PopEvent, PopEvent]
     = [Some release, Some press, Some release, None]"
  using channel_fifo [of 4 "[PushEvent release, PopEvent, PushEvent press, PushEvent release,
      PopEvent, PopEvent, PopEvent]"]
  by simp

end
